theory Spec2Isabelle
  imports Main
begin

section \<open>Values, capture cells and patterns\<close>

text \<open>
  The header \<^verbatim>\<open>patterns.h\<close> is a library of class templates. A value is an integer or a
  \<^verbatim>\<open>std::tuple\<close> of values; a pattern is built from the classes \<^verbatim>\<open>Wildcard\<close>, \<^verbatim>\<open>Or\<close>,
  \<^verbatim>\<open>Meet\<close>, \<^verbatim>\<open>App\<close>, \<^verbatim>\<open>And\<close>, \<^verbatim>\<open>Not\<close>, \<^verbatim>\<open>Id\<close>, \<^verbatim>\<open>Ds\<close>, \<^verbatim>\<open>Ooo\<close> and \<^verbatim>\<open>PostCheck\<close>; any
  other object is a pattern through the primary template of \<^verbatim>\<open>PatternTraits\<close>, which
  compares it with the value by \<^verbatim>\<open>==\<close> (here: an integer literal, \<open>Lit\<close>).

  An \<^verbatim>\<open>Id\<close> holds a \<^verbatim>\<open>std::shared_ptr\<close> to its slot, so every copy of an \<^verbatim>\<open>Id\<close> inside a
  pattern shares the slot: a cell is named by a number, and the slots live in the state.
  The owning and the referencing \<^verbatim>\<open>IdTrait\<close> commit the same value (a copy, or the address
  of the matched value); the lifetime of the referenced value is outside this model.

  The callables of \<^verbatim>\<open>Meet\<close> and \<^verbatim>\<open>PostCheck\<close> are arbitrary C++ function objects. They are
  modelled as functions that may read the whole state (a guard typically reads the
  captures) and that return their result with a new value of \<open>world\<close>, the part of the
  state that stands for everything they can write. The unary function of \<^verbatim>\<open>App\<close> is a
  function of the value.
\<close>

type_synonym cell = nat

datatype val = VInt int | VTuple "val list"

record 'w state =
  cells :: "cell \<Rightarrow> val option"
  world :: 'w

datatype exn = OooMatchBreak

type_synonym 'w result = "(exn + bool) \<times> 'w state"

datatype 'w pat =
    Lit int
  | Wildcard
  | Or "'w pat list"
  | Meet "val \<Rightarrow> 'w state \<Rightarrow> bool \<times> 'w"
  | App "val \<Rightarrow> val" "'w pat"
  | And "'w pat list"
  | Not "'w pat"
  | Id cell
  | Ds "'w pat list"
  | Ooo "'w pat"
  | PostCheck "'w pat" "'w state \<Rightarrow> bool \<times> 'w"

text \<open>\<^verbatim>\<open>IsOoo\<close>, lines 602-610.\<close>

fun isOoo :: "'w pat \<Rightarrow> bool" where
  "isOoo (Ooo _) = True"
| "isOoo _ = False"

section \<open>The static rule check\<close>

text \<open>
  \<^verbatim>\<open>MatchFuncDefinedV<Value, Pattern>\<close> (lines 472-484) holds when the call
  \<^verbatim>\<open>matchPattern(value, pattern)\<close> is well-formed, that is when the trailing return type of
  the \<^verbatim>\<open>matchPatternImpl\<close> chosen for the pattern can be formed. It depends on the types
  only; the type of a value is read off its shape here. The clauses follow the return
  types: an integer compares with an integer and not with a tuple (line 843); \<^verbatim>\<open>Or\<close> and
  \<^verbatim>\<open>And\<close> need every alternative; an \<^verbatim>\<open>Ooo\<close> needs a tuple whose elements all have a rule
  for its sub-pattern; a \<^verbatim>\<open>Ds\<close> follows \<^verbatim>\<open>TupleMatchHelper\<close>, whose specialisation for a
  leading pattern other than \<^verbatim>\<open>Ooo\<close> needs a first value with a rule for that pattern
  (so a tuple, line 793) and the same of the rest, whose specialisation for an empty
  value tuple and such a leading pattern is deleted (lines 535-541, asserted in line
  789), and whose specialisations for a leading \<^verbatim>\<open>Ooo\<close> and for no pattern at all declare
  the \<^verbatim>\<open>bool\<close> of \<^verbatim>\<open>tryOooMatch\<close> or \<^verbatim>\<open>auto\<close> and are well-formed for every value (for a
  leading \<^verbatim>\<open>Ooo\<close> and a value that is no tuple the body of \<^verbatim>\<open>tryOooMatch\<close> does not compile,
  so no program makes that call). The callable of a \<^verbatim>\<open>Meet\<close> and the slot of an \<^verbatim>\<open>Id\<close>
  are taken to accept every value.
\<close>

fun MatchFuncDefined :: "val \<Rightarrow> 'w pat \<Rightarrow> bool"
  and TupleMatchDefined :: "val list \<Rightarrow> 'w pat list \<Rightarrow> bool"
  and AllDefined :: "val \<Rightarrow> 'w pat list \<Rightarrow> bool"
  and OooDefined :: "val list \<Rightarrow> 'w pat \<Rightarrow> bool"
where
  "MatchFuncDefined v (Lit l) = (case v of VInt _ \<Rightarrow> True | VTuple _ \<Rightarrow> False)"
| "MatchFuncDefined v Wildcard = True"
| "MatchFuncDefined v (Or ps) = AllDefined v ps"
| "MatchFuncDefined v (Meet f) = True"
| "MatchFuncDefined v (App f p) = MatchFuncDefined (f v) p"
| "MatchFuncDefined v (And ps) = AllDefined v ps"
| "MatchFuncDefined v (Not p) = MatchFuncDefined v p"
| "MatchFuncDefined v (Id c) = True"
| "MatchFuncDefined v (Ds ps) =
     (case v of
        VTuple vs \<Rightarrow> TupleMatchDefined vs ps
      | VInt _ \<Rightarrow> (case ps of [] \<Rightarrow> True | p # _ \<Rightarrow> isOoo p))"
| "MatchFuncDefined v (Ooo p) =
     (case v of VTuple vs \<Rightarrow> OooDefined vs p | VInt _ \<Rightarrow> False)"
| "MatchFuncDefined v (PostCheck p g) = MatchFuncDefined v p"
| "TupleMatchDefined vs [] = True"
| "TupleMatchDefined vs (p # ps) =
     (if isOoo p then True
      else (case vs of
              [] \<Rightarrow> False
            | v # vs' \<Rightarrow> MatchFuncDefined v p \<and> TupleMatchDefined vs' ps))"
| "AllDefined v [] = True"
| "AllDefined v (p # ps) = (MatchFuncDefined v p \<and> AllDefined v ps)"
| "OooDefined [] p = True"
| "OooDefined (v # vs) p = (MatchFuncDefined v p \<and> OooDefined vs p)"

section \<open>Capture cells\<close>

text \<open>
  \<^verbatim>\<open>Id::matchValue\<close> (lines 386-397): a committed slot compares its value with the new one,
  an empty slot takes the value and the match succeeds. \<^verbatim>\<open>Id::reset\<close> (lines 398-401)
  empties the slot.
\<close>

definition matchValue :: "cell \<Rightarrow> val \<Rightarrow> 'w state \<Rightarrow> bool \<times> 'w state" where
  "matchValue c v s =
     (case cells s c of
        Some u \<Rightarrow> (u = v, s)
      | None \<Rightarrow> (True, s\<lparr>cells := (cells s)(c \<mapsto> v)\<rparr>))"

definition reset :: "cell \<Rightarrow> 'w state \<Rightarrow> 'w state" where
  "reset c s = s\<lparr>cells := (cells s)(c := None)\<rparr>"

section \<open>Matching\<close>

text \<open>
  A fold expression \<^verbatim>\<open>(e(x) || ...)\<close> or \<^verbatim>\<open>(e(x) && ...)\<close> over a parameter pack evaluates
  its operands from left to right and stops at the first operand that decides it; over
  an empty pack it is \<^verbatim>\<open>false\<close> for \<^verbatim>\<open>||\<close> and \<^verbatim>\<open>true\<close> for \<^verbatim>\<open>&&\<close>. \<open>foldUntil stop\<close> is that
  fold: \<open>stop = True\<close> for \<^verbatim>\<open>||\<close>, \<open>stop = False\<close> for \<^verbatim>\<open>&&\<close>. An exception thrown by an
  operand ends the fold and is passed on, with the state as the operand left it.
\<close>

fun foldUntil ::
  "bool \<Rightarrow> ('a \<Rightarrow> 'w state \<Rightarrow> 'w result) \<Rightarrow> 'a list \<Rightarrow> 'w state \<Rightarrow> 'w result" where
  "foldUntil stop f [] s = (Inr (\<not> stop), s)"
| "foldUntil stop f (x # xs) s =
     (case f x s of
        (Inr b, s') \<Rightarrow> if b = stop then (Inr b, s') else foldUntil stop f xs s'
      | (Inl e, s') \<Rightarrow> (Inl e, s'))"

lemma foldUntil_cong [fundef_cong]:
  assumes "xs = ys" and "\<And>x t. x \<in> set ys \<Longrightarrow> f x t = g x t"
  shows "foldUntil stop f xs s = foldUntil stop g ys s"
proof -
  have "(\<forall>x \<in> set ys. \<forall>t. f x t = g x t) \<Longrightarrow> foldUntil stop f ys s = foldUntil stop g ys s"
    by (induction ys arbitrary: s) (simp_all split: prod.splits sum.splits)
  with assms show ?thesis by simp
qed

text \<open>
  \<^verbatim>\<open>matchPattern\<close> (lines 15-20) dispatches to the \<^verbatim>\<open>matchPatternImpl\<close> of the pattern's
  class. Every function returns the \<^verbatim>\<open>bool\<close> of the C++ function or the exception it
  throws, and the state it leaves.

  \<^item> \<open>tupleMatchImpl\<close> is \<^verbatim>\<open>TupleMatchHelper::tupleMatchImpl\<close> (lines 523-575). For an empty
    value tuple and a leading pattern other than \<^verbatim>\<open>Ooo\<close> the specialisation is deleted:
    no program contains that call, and the model gives it \<open>False\<close>.
  \<^item> \<open>tryOooMatch\<close> is lines 633-653; the \<^verbatim>\<open>try\<close> block of \<^verbatim>\<open>tryOooMatchImpl\<close> (lines 685-696)
    is written where it is called, over the indices \<open>0, \<dots>, length vs\<close> of
    \<^verbatim>\<open>std::make_index_sequence\<close>.
  \<^item> \<open>tryOooMatchImplHelper\<close> is lines 659-683: index \<open>0\<close> tries the patterns after the
    \<^verbatim>\<open>Ooo\<close> on all the values; index \<open>I > 0\<close> matches value \<open>I - 1\<close> with
    \<^verbatim>\<open>matchPatternImplSingle\<close> (lines 736-741) and throws when that fails, or when the
    first \<open>I\<close> values have no rule for the \<^verbatim>\<open>Ooo\<close>.
  \<^item> A pair of a value and a pattern for which no rule exists is rejected by the compiler;
    the model gives such a pair \<open>False\<close> and leaves the state.
\<close>

fun matchPattern :: "val \<Rightarrow> 'w pat \<Rightarrow> 'w state \<Rightarrow> 'w result"
  and tupleMatchImpl :: "val list \<Rightarrow> 'w pat list \<Rightarrow> 'w state \<Rightarrow> 'w result"
  and tryOooMatch :: "val list \<Rightarrow> 'w pat list \<Rightarrow> 'w state \<Rightarrow> 'w result"
  and tryOooMatchImplHelper :: "nat \<Rightarrow> val list \<Rightarrow> 'w pat list \<Rightarrow> 'w state \<Rightarrow> 'w result"
where
  "matchPattern v (Lit l) s = (Inr (case v of VInt i \<Rightarrow> l = i | VTuple _ \<Rightarrow> False), s)"
| "matchPattern v Wildcard s = (Inr True, s)"
| "matchPattern v (Or ps) s = foldUntil True (\<lambda>p. matchPattern v p) ps s"
| "matchPattern v (Meet f) s = (Inr (fst (f v s)), s\<lparr>world := snd (f v s)\<rparr>)"
| "matchPattern v (App f p) s = matchPattern (f v) p s"
| "matchPattern v (And ps) s = foldUntil False (\<lambda>p. matchPattern v p) ps s"
| "matchPattern v (Not p) s =
     (case matchPattern v p s of
        (Inr b, s') \<Rightarrow> (Inr (\<not> b), s')
      | (Inl e, s') \<Rightarrow> (Inl e, s'))"
| "matchPattern v (Id c) s = (Inr (fst (matchValue c v s)), snd (matchValue c v s))"
| "matchPattern v (Ds ps) s =
     (case v of VTuple vs \<Rightarrow> tupleMatchImpl vs ps s | VInt _ \<Rightarrow> (Inr False, s))"
| "matchPattern v (Ooo p) s =
     (case v of
        VTuple vs \<Rightarrow> foldUntil False (\<lambda>u. matchPattern u p) vs s
      | VInt _ \<Rightarrow> (Inr False, s))"
| "matchPattern v (PostCheck p g) s =
     (case matchPattern v p s of
        (Inr b, s') \<Rightarrow>
          if b then (Inr (fst (g s')), s'\<lparr>world := snd (g s')\<rparr>) else (Inr False, s')
      | (Inl e, s') \<Rightarrow> (Inl e, s'))"
| "tupleMatchImpl [] [] s = (Inr True, s)"
| "tupleMatchImpl (v # vs) [] s = (Inr False, s)"
| "tupleMatchImpl vs (p # ps) s =
     (if isOoo p then tryOooMatch vs (p # ps) s
      else (case vs of
              [] \<Rightarrow> (Inr False, s)
            | v # vs' \<Rightarrow>
                (case matchPattern v p s of
                   (Inr b, s') \<Rightarrow> if b then tupleMatchImpl vs' ps s' else (Inr False, s')
                 | (Inl e, s') \<Rightarrow> (Inl e, s'))))"
| "tryOooMatch vs [] s = (Inr (vs = []), s)"
| "tryOooMatch vs (p # ps) s =
     (if isOoo p then
        (case foldUntil True (\<lambda>i. tryOooMatchImplHelper i vs (p # ps)) [0 ..< length vs + 1] s of
           (Inl OooMatchBreak, s') \<Rightarrow> (Inr False, s')
         | (Inr b, s') \<Rightarrow> (Inr b, s'))
      else (case vs of
              [] \<Rightarrow> (Inr False, s)
            | v # vs' \<Rightarrow>
                if MatchFuncDefined v p then
                  (case matchPattern v p s of
                     (Inr b, s') \<Rightarrow> if b then tryOooMatch vs' ps s' else (Inr False, s')
                   | (Inl e, s') \<Rightarrow> (Inl e, s'))
                else (Inr False, s)))"
| "tryOooMatchImplHelper i vs [] s = (Inl OooMatchBreak, s)"
| "tryOooMatchImplHelper i vs (p # ps) s =
     (case i of
        0 \<Rightarrow> tryOooMatch vs ps s
      | Suc j \<Rightarrow>
         (case p of
            Ooo q \<Rightarrow>
              if MatchFuncDefined (VTuple (take i vs)) p then
                (case matchPattern (vs ! j) q s of
                   (Inr b, s') \<Rightarrow>
                     if \<not> b then (Inl OooMatchBreak, s')
                     else tryOooMatch (drop i vs) ps s'
                 | (Inl e, s') \<Rightarrow> (Inl e, s'))
              else (Inl OooMatchBreak, s)
          | _ \<Rightarrow> (Inl OooMatchBreak, s)))"

section \<open>Resetting the capture cells\<close>

text \<open>
  \<^verbatim>\<open>resetId\<close> (lines 22-26) dispatches to the \<^verbatim>\<open>resetIdImpl\<close> of the pattern's class: the
  classes with sub-patterns pass the call on to each of them, in order (the comma fold of
  lines 172-179, 291-298 and 587-594), an \<^verbatim>\<open>Id\<close> empties its slot (lines 425-428), and
  the others do nothing.
\<close>

fun resetId :: "'w pat \<Rightarrow> 'w state \<Rightarrow> 'w state" where
  "resetId (Lit l) s = s"
| "resetId Wildcard s = s"
| "resetId (Or ps) s = fold resetId ps s"
| "resetId (Meet f) s = s"
| "resetId (App f p) s = resetId p s"
| "resetId (And ps) s = fold resetId ps s"
| "resetId (Not p) s = resetId p s"
| "resetId (Id c) s = reset c s"
| "resetId (Ds ps) s = fold resetId ps s"
| "resetId (Ooo p) s = resetId p s"
| "resetId (PostCheck p g) s = resetId p s"

text \<open>\<^verbatim>\<open>PatternPair::matchValue\<close> (lines 38-43), for the pattern the pair refers to.\<close>

definition PatternPair_matchValue :: "'w pat \<Rightarrow> val \<Rightarrow> 'w state \<Rightarrow> 'w result" where
  "PatternPair_matchValue mPattern v s = matchPattern v mPattern (resetId mPattern s)"

text \<open>The cells of the \<^verbatim>\<open>Id\<close> objects that occur in a pattern.\<close>

fun ids :: "'w pat \<Rightarrow> cell set" where
  "ids (Lit l) = {}"
| "ids Wildcard = {}"
| "ids (Or ps) = (\<Union>p \<in> set ps. ids p)"
| "ids (Meet f) = {}"
| "ids (App f p) = ids p"
| "ids (And ps) = (\<Union>p \<in> set ps. ids p)"
| "ids (Not p) = ids p"
| "ids (Id c) = {c}"
| "ids (Ds ps) = (\<Union>p \<in> set ps. ids p)"
| "ids (Ooo p) = ids p"
| "ids (PostCheck p g) = ids p"

section \<open>The description of the search for a rest pattern\<close>




section \<open>Values and patterns of the examples\<close>

text \<open>
  The state before any match, in which no cell is committed, and the predicate pattern
  \<^verbatim>\<open>meet(isEven)\<close>, which has no effect on the world.
\<close>

definition emptyState :: "unit state" where
  "emptyState = \<lparr>cells = (\<lambda>c. None), world = ()\<rparr>"

definition isEven :: "'w pat" where
  "isEven = Meet (\<lambda>v s. (case v of VInt i \<Rightarrow> even i | VTuple _ \<Rightarrow> False, world s))"

text \<open>
  A state in which every cell is committed, a pattern with a cell under every class that
  has sub-patterns, the pattern \<^verbatim>\<open>ds(x, x)\<close> with one cell twice, the state a failed match
  of \<open>(3, 4)\<close> against it leaves, a guard that reads a cell and counts its calls in the
  world, and a state for it.
\<close>

definition committed :: "unit state" where
  "committed = \<lparr>cells = (\<lambda>c. Some (VInt (int c))), world = ()\<rparr>"

definition nested :: "unit pat" where
  "nested = Ds [Or [Id 0, Not (Id 1)], Ooo (App (\<lambda>v. v) (Id 2)),
                PostCheck (And [Id 3, Lit 1]) (\<lambda>s. (True, world s)), Meet (\<lambda>v s. (True, world s)), Wildcard]"

definition twice :: "unit pat" where
  "twice = Ds [Id 0, Id 0]"

definition stale :: "unit state" where
  "stale = snd (matchPattern (VTuple [VInt 3, VInt 4]) twice emptyState)"

definition capturedAbove :: "cell \<Rightarrow> int \<Rightarrow> nat state \<Rightarrow> bool \<times> nat" where
  "capturedAbove c n s =
     ((case cells s c of Some (VInt i) \<Rightarrow> n < i | _ \<Rightarrow> False), Suc (world s))"

definition freshState :: "nat state" where
  "freshState = \<lparr>cells = (\<lambda>c. None), world = 0\<rparr>"

text \<open>A predicate pattern that counts its calls in the world and returns a fixed result.\<close>

definition counted :: "bool \<Rightarrow> nat pat" where
  "counted b = Meet (\<lambda>v s. (b, Suc (world s)))"


section \<open>No exception leaves a match\<close>

lemma foldUntil_no_throw:
  assumes "\<And>x t. x \<in> set xs \<Longrightarrow> \<not> isl (fst (f x t))"
  shows "\<not> isl (fst (foldUntil stop f xs s))"
  using assms
proof (induction xs arbitrary: s)
  case Nil
  then show ?case by simp
next
  case (Cons x xs)
  obtain r s' where fx: "f x s = (r, s')" by (cases "f x s")
  have "\<not> isl (fst (f x s))" using Cons.prems by simp
  then obtain b where r: "r = Inr b" using fx by (cases r) auto
  have "\<not> isl (fst (foldUntil stop f xs s'))" using Cons.IH Cons.prems by simp
  then show ?case using fx r by simp
qed

lemma seq_no_throw:
  assumes "\<not> isl (fst r)"
    and "\<And>b s'. r = (Inr b, s') \<Longrightarrow> b \<Longrightarrow> \<not> isl (fst (k s'))"
  shows "\<not> isl (fst (case r of (Inr b, s') \<Rightarrow> if b then k s' else (Inr False, s')
                              | (Inl e, s') \<Rightarrow> (Inl e, s')))"
proof -
  obtain x s' where r: "r = (x, s')" by (cases r)
  then obtain b where x: "x = Inr b" using assms(1) by (cases x) auto
  show ?thesis using assms(2) [of b s'] r x by simp
qed

lemma no_throw:
  "\<not> isl (fst (matchPattern v p s))"
  "\<not> isl (fst (tupleMatchImpl vs ps s))"
  "\<not> isl (fst (tryOooMatch vs ps s))"
  "tryOooMatchImplHelper i vs ps s = tryOooMatchImplHelper i vs ps s"
proof (induction v p s and vs ps s and vs ps s and i vs ps s
    rule: matchPattern_tupleMatchImpl_tryOooMatch_tryOooMatchImplHelper.induct)
  case (3 v ps s)
  then show ?case by (simp add: foldUntil_no_throw)
next
  case (6 v ps s)
  then show ?case by (simp add: foldUntil_no_throw)
next
  case (7 v p s)
  then show ?case by (cases "matchPattern v p s") (auto split: sum.splits)
next
  case (10 v p s)
  then show ?case by (cases v) (simp_all add: foldUntil_no_throw)
next
  case (11 v p g s)
  then show ?case by (cases "matchPattern v p s") (auto split: sum.splits)
next
  case (14 vs p ps s)
  show ?case
  proof (cases "isOoo p")
    case True
    then show ?thesis using 14(1) by (simp del: tryOooMatch.simps)
  next
    case False
    show ?thesis
    proof (cases vs)
      case Nil
      then show ?thesis using False by simp
    next
      case (Cons u us)
      have "\<not> isl (fst (case matchPattern u p s of
                (Inr b, s') \<Rightarrow> if b then tupleMatchImpl us ps s' else (Inr False, s')
              | (Inl e, s') \<Rightarrow> (Inl e, s')))"
        using 14(2) [OF False Cons] 14(3) [OF False Cons] by (intro seq_no_throw) auto
      then show ?thesis using False Cons by simp
    qed
  qed
next
  case (16 vs p ps s)
  show ?case
  proof (cases "isOoo p")
    case True
    obtain r s' where f: "foldUntil True (\<lambda>i. tryOooMatchImplHelper i vs (p # ps))
        [0 ..< length vs + 1] s = (r, s')"
      by (cases "foldUntil True (\<lambda>i. tryOooMatchImplHelper i vs (p # ps)) [0 ..< length vs + 1] s")
    show ?thesis using True f by (simp del: upt_Suc split: sum.splits exn.splits)
  next
    case False
    show ?thesis
    proof (cases vs)
      case Nil
      then show ?thesis using False by simp
    next
      case (Cons u us)
      show ?thesis
      proof (cases "MatchFuncDefined u p")
        case True
        have "\<not> isl (fst (case matchPattern u p s of
                  (Inr b, s') \<Rightarrow> if b then tryOooMatch us ps s' else (Inr False, s')
                | (Inl e, s') \<Rightarrow> (Inl e, s')))"
          using 16(2) [OF False Cons True] 16(3) [OF False Cons True]
          by (intro seq_no_throw) auto
        then show ?thesis using False Cons True by simp
      next
        case F: False
        then show ?thesis using False Cons by simp
      qed
    qed
  qed
qed (simp_all split: val.splits)


lemma matchPattern_returns: "\<exists>b s'. matchPattern v p s = (Inr b, s')"
proof -
  obtain r s' where m: "matchPattern v p s = (r, s')" by (cases "matchPattern v p s")
  then show ?thesis using no_throw(1) [of v p s] by (cases r) auto
qed



text \<open>
  A \<^verbatim>\<open>Ds\<close> whose first patterns are no \<^verbatim>\<open>Ooo\<close> matches them against the first values and
  goes on with the rest in the state they leave.
\<close>

lemma foldUntil_append:
  "foldUntil stop f (xs @ ys) s =
     (case foldUntil stop f xs s of
        (Inr b, s') \<Rightarrow> if b = stop then (Inr b, s') else foldUntil stop f ys s'
      | (Inl e, s') \<Rightarrow> (Inl e, s'))"
  by (induction xs arbitrary: s) (auto split: prod.splits sum.splits)

lemma tupleMatchImpl_append:
  assumes "list_all (\<lambda>p. \<not> isOoo p) pre" and "length us = length pre"
  shows "tupleMatchImpl (us @ ws) (pre @ ps) s =
     (case tupleMatchImpl us pre s of
        (Inr b, t) \<Rightarrow> if b then tupleMatchImpl ws ps t else (Inr False, t)
      | (Inl e, t) \<Rightarrow> (Inl e, t))"
  using assms
proof (induction pre arbitrary: us s)
  case Nil
  then show ?case by simp
next
  case (Cons p pre)
  obtain u us' where us: "us = u # us'" using Cons.prems(2) by (cases us) simp_all
  have p: "\<not> isOoo p" and pre: "list_all (\<lambda>p. \<not> isOoo p) pre" and len: "length us' = length pre"
    using Cons.prems us by simp_all
  obtain b s' where m: "matchPattern u p s = (Inr b, s')"
    using matchPattern_returns by blast
  show ?case
  proof (cases b)
    case True
    have "tupleMatchImpl (us' @ ws) (pre @ ps) s' =
       (case tupleMatchImpl us' pre s' of
          (Inr b, t) \<Rightarrow> if b then tupleMatchImpl ws ps t else (Inr False, t)
        | (Inl e, t) \<Rightarrow> (Inl e, t))"
      using Cons.IH [OF pre len] .
    then show ?thesis using us p m True by simp
  next
    case False
    then show ?thesis using us p m by simp
  qed
qed

lemma Ds_append:
  assumes "list_all (\<lambda>p. \<not> isOoo p) pre" and "length us = length pre"
    and "matchPattern (VTuple us) (Ds pre) s = (Inr True, t)"
  shows "matchPattern (VTuple (us @ ws)) (Ds (pre @ ps)) s = tupleMatchImpl ws ps t"
proof -
  have "tupleMatchImpl us pre s = (Inr True, t)" using assms(3) by simp
  then have "tupleMatchImpl (us @ ws) (pre @ ps) s = tupleMatchImpl ws ps t"
    by (simp only: tupleMatchImpl_append [OF assms(1,2)]) simp
  then show ?thesis by simp
qed

text \<open>
  C5. \<^verbatim>\<open>matchPattern\<close> returns a \<^verbatim>\<open>bool\<close> for every value, pattern and state: the
  \<^verbatim>\<open>OooMatchBreak\<close> that \<^verbatim>\<open>tryOooMatchImplHelper\<close> throws never reaches its caller. When the
  fold over the indices ends with the exception, \<^verbatim>\<open>tryOooMatch\<close> returns \<open>False\<close>, and so does
  the match of the enclosing \<^verbatim>\<open>Ds\<close>, whatever patterns before the \<^verbatim>\<open>Ooo\<close> have matched; the
  state is the one in which the exception was thrown.
\<close>

theorem OooMatchBreak_never_escapes:
  "(\<exists>b s'. matchPattern v p s = (Inr b, s')) \<and>
   (\<forall>e. fst (foldUntil True (\<lambda>i. tryOooMatchImplHelper i vs (Ooo q # ps))
              [0 ..< length vs + 1] s) = Inl e \<longrightarrow>
        tryOooMatch vs (Ooo q # ps) s =
          (Inr False, snd (foldUntil True (\<lambda>i. tryOooMatchImplHelper i vs (Ooo q # ps))
              [0 ..< length vs + 1] s))) \<and>
   (\<forall>e. list_all (\<lambda>p. \<not> isOoo p) pre \<and> length us = length pre \<and>
        matchPattern (VTuple us) (Ds pre) s = (Inr True, t) \<and>
        fst (foldUntil True (\<lambda>i. tryOooMatchImplHelper i vs (Ooo q # ps))
              [0 ..< length vs + 1] t) = Inl e \<longrightarrow>
        matchPattern (VTuple (us @ vs)) (Ds (pre @ Ooo q # ps)) s =
          (Inr False, snd (foldUntil True (\<lambda>i. tryOooMatchImplHelper i vs (Ooo q # ps))
              [0 ..< length vs + 1] t)))"
proof -
  have caught: "tryOooMatch vs (Ooo q # ps) x = (Inr False, s')"
    if "foldUntil True (\<lambda>i. tryOooMatchImplHelper i vs (Ooo q # ps))
          [0 ..< length vs + 1] x = (Inl e, s')" for e s' x
    using that by (cases e) (simp del: upt_Suc)
  have caught': "tryOooMatch vs (Ooo q # ps) x =
      (Inr False, snd (foldUntil True (\<lambda>i. tryOooMatchImplHelper i vs (Ooo q # ps))
              [0 ..< length vs + 1] x))"
    if "fst (foldUntil True (\<lambda>i. tryOooMatchImplHelper i vs (Ooo q # ps))
          [0 ..< length vs + 1] x) = Inl e" for e x
    using caught [of x e] that by (metis prod.collapse snd_conv)
  have seq: "matchPattern (VTuple (us @ vs)) (Ds (pre @ Ooo q # ps)) s =
      tryOooMatch vs (Ooo q # ps) t"
    if "list_all (\<lambda>p. \<not> isOoo p) pre" and "length us = length pre"
      and "matchPattern (VTuple us) (Ds pre) s = (Inr True, t)"
    using Ds_append [OF that, of vs "Ooo q # ps"] by (simp del: tryOooMatch.simps)
  show ?thesis using matchPattern_returns [of v p s] caught' seq by metis
qed

theorem OooMatchBreak_never_escapes_witness:
  "fst (foldUntil True
          (\<lambda>i. tryOooMatchImplHelper i [VInt 6, VInt 7, VInt 1] [Ooo isEven, Lit 1])
          [0 ..< length [VInt 6, VInt 7, VInt 1] + 1] emptyState) = Inl OooMatchBreak \<and>
   tryOooMatch [VInt 6, VInt 7, VInt 1] [Ooo isEven, Lit 1] emptyState = (Inr False, emptyState) \<and>
   matchPattern (VTuple [VInt 6, VInt 7, VInt 1]) (Ds [Ooo isEven, Lit 1]) emptyState
     = (Inr False, emptyState) \<and>
   list_all (\<lambda>p. \<not> isOoo p) [Lit 9 :: unit pat] \<and>
   matchPattern (VTuple [VInt 9]) (Ds [Lit 9]) emptyState = (Inr True, emptyState) \<and>
   matchPattern (VTuple [VInt 9, VInt 6, VInt 7, VInt 1]) (Ds [Lit 9, Ooo isEven, Lit 1]) emptyState
     = (Inr False, emptyState)"
  using OooMatchBreak_never_escapes [of "VTuple [VInt 6, VInt 7, VInt 1]" "Ds [Ooo isEven, Lit 1]"
      emptyState "[VInt 6, VInt 7, VInt 1]" isEven "[Lit 1]" "[Lit 9]" "[VInt 9]" emptyState]
  by (simp add: isEven_def emptyState_def)

section \<open>Resetting\<close>

lemma fold_resetId_world:
  assumes "\<And>p s. p \<in> set ps \<Longrightarrow> world (resetId p s) = world s"
  shows "world (fold resetId ps s) = world s"
  using assms by (induction ps arbitrary: s) simp_all

lemma resetId_world: "world (resetId p s) = world s"
  by (induction p arbitrary: s) (simp_all add: fold_resetId_world reset_def)

lemma fold_resetId_cells:
  assumes "\<And>p s. p \<in> set ps \<Longrightarrow> cells (resetId p s) c = (if c \<in> ids p then None else cells s c)"
  shows "cells (fold resetId ps s) c = (if c \<in> (\<Union>p \<in> set ps. ids p) then None else cells s c)"
  using assms by (induction ps arbitrary: s) simp_all

lemma resetId_cells: "cells (resetId p s) c = (if c \<in> ids p then None else cells s c)"
  by (induction p arbitrary: s) (simp_all add: fold_resetId_cells reset_def)

lemma stale_eq: "stale = \<lparr>cells = (\<lambda>c. None)(0 \<mapsto> VInt 3), world = ()\<rparr>"
  by (simp add: stale_def twice_def emptyState_def matchValue_def)

text \<open>
  C9. \<^verbatim>\<open>resetId\<close> empties every cell that occurs in the pattern, under whatever nesting of
  \<^verbatim>\<open>Or\<close>, \<^verbatim>\<open>And\<close>, \<^verbatim>\<open>Not\<close>, \<^verbatim>\<open>App\<close>, \<^verbatim>\<open>Ds\<close>, \<^verbatim>\<open>Ooo\<close> and \<^verbatim>\<open>PostCheck\<close>; it leaves the other cells and
  the world as they were.
\<close>

theorem resetId_clears_every_cell:
  "(\<forall>c \<in> ids p. cells (resetId p s) c = None) \<and>
   (\<forall>c. c \<notin> ids p \<longrightarrow> cells (resetId p s) c = cells s c) \<and>
   world (resetId p s) = world s"
  by (simp add: resetId_cells resetId_world)

theorem resetId_clears_every_cell_witness:
  "ids nested = {0, 1, 2, 3} \<and>
   cells committed 2 = Some (VInt 2) \<and>
   cells (resetId nested committed) 0 = None \<and>
   cells (resetId nested committed) 1 = None \<and>
   cells (resetId nested committed) 2 = None \<and>
   cells (resetId nested committed) 3 = None \<and>
   cells (resetId nested committed) 4 = Some (VInt 4) \<and>
   world (resetId nested committed) = world committed"
  using resetId_clears_every_cell [of nested committed]
  by (auto simp: nested_def committed_def reset_def)

text \<open>
  C10. \<^verbatim>\<open>PatternPair::matchValue\<close> resets the cells of its pattern and then matches, so the
  cells of the pattern are empty when the match starts, and the result does not depend on
  what an earlier attempt left in them: two states that differ only in cells of the
  pattern give the same result and the same final state.
\<close>

theorem PatternPair_matchValue_resets_first:
  "PatternPair_matchValue p v s = matchPattern v p (resetId p s) \<and>
   (\<forall>c \<in> ids p. cells (resetId p s) c = None) \<and>
   (world s = world t \<and> (\<forall>c. c \<notin> ids p \<longrightarrow> cells s c = cells t c) \<longrightarrow>
      PatternPair_matchValue p v s = PatternPair_matchValue p v t)"
proof -
  have "resetId p s = resetId p t"
    if "world s = world t" and "\<forall>c. c \<notin> ids p \<longrightarrow> cells s c = cells t c"
  proof (rule state.equality)
    show "cells (resetId p s) = cells (resetId p t)"
      using that(2) by (auto simp: fun_eq_iff resetId_cells)
    show "world (resetId p s) = world (resetId p t)"
      using that(1) by (simp add: resetId_world)
  qed simp
  then show ?thesis by (simp add: PatternPair_matchValue_def resetId_cells)
qed


theorem PatternPair_matchValue_resets_first_witness:
  "world stale = world emptyState \<and>
   cells stale 0 = Some (VInt 3) \<and>
   0 \<in> ids twice \<and>
   cells (resetId twice stale) 0 = None \<and>
   fst (matchPattern (VTuple [VInt 4, VInt 4]) twice stale) = Inr False \<and>
   fst (PatternPair_matchValue twice (VTuple [VInt 4, VInt 4]) stale) = Inr True \<and>
   PatternPair_matchValue twice (VTuple [VInt 4, VInt 4]) stale =
     PatternPair_matchValue twice (VTuple [VInt 4, VInt 4]) emptyState"
  using PatternPair_matchValue_resets_first [of twice "VTuple [VInt 4, VInt 4]" stale emptyState]
  by (simp add: stale_eq twice_def emptyState_def matchValue_def reset_def
      PatternPair_matchValue_def)

section \<open>Capture cells in a match\<close>

text \<open>
  A second match of a cell against another value returns \<^verbatim>\<open>false\<close>, but the enclosing match
  need not fail: \<^verbatim>\<open>ds(x, not_(x))\<close> and \<^verbatim>\<open>ds(x, or_(x, _))\<close> match \<open>(3, 4)\<close>, and leave \<open>x\<close>
  committed to \<open>3\<close>.
\<close>

theorem Id_conflict_counterexample:
  "matchPattern (VInt 4) (Id 0) stale = (Inr False, stale) \<and>
   matchPattern (VTuple [VInt 3, VInt 4]) (Ds [Id 0, Not (Id 0)]) emptyState = (Inr True, stale) \<and>
   matchPattern (VTuple [VInt 3, VInt 4]) (Ds [Id 0, Or [Id 0, Wildcard]]) emptyState
     = (Inr True, stale)"
  by (simp add: stale_eq emptyState_def matchValue_def)

text \<open>
  C4, as the code has it. Matching an \<^verbatim>\<open>Id\<close> whose cell is empty commits the value and
  succeeds; matching an \<^verbatim>\<open>Id\<close> whose cell is committed succeeds exactly when the value equals
  the committed one, and leaves the cell. When an \<^verbatim>\<open>Id\<close> fails so, a \<^verbatim>\<open>Ds\<close> without \<^verbatim>\<open>Ooo\<close>
  before it and an \<^verbatim>\<open>And\<close> that reach it fail; a \<^verbatim>\<open>Not\<close> around it succeeds, and an \<^verbatim>\<open>Or\<close>
  goes on with its next alternative. So \<^verbatim>\<open>ds(x, x)\<close> matches \<open>(3, 3)\<close> and not \<open>(3, 4)\<close>, and
  after \<^verbatim>\<open>resetId\<close> it matches \<open>(4, 4)\<close>.
\<close>

theorem Id_commits_once:
  "(cells s c = None \<longrightarrow>
      matchPattern v (Id c) s = (Inr True, s\<lparr>cells := (cells s)(c \<mapsto> v)\<rparr>)) \<and>
   (\<forall>u. cells s c = Some u \<longrightarrow> matchPattern v (Id c) s = (Inr (u = v), s)) \<and>
   (\<forall>u. list_all (\<lambda>p. \<not> isOoo p) pre \<and> length us = length pre \<and>
        matchPattern (VTuple us) (Ds pre) s = (Inr True, t) \<and>
        cells t c = Some u \<and> u \<noteq> v \<longrightarrow>
      matchPattern (VTuple (us @ v # vs)) (Ds (pre @ Id c # post)) s = (Inr False, t)) \<and>
   (\<forall>u. matchPattern v (And pre) s = (Inr True, t) \<and> cells t c = Some u \<and> u \<noteq> v \<longrightarrow>
      matchPattern v (And (pre @ Id c # post)) s = (Inr False, t)) \<and>
   (\<forall>u. cells s c = Some u \<longrightarrow> matchPattern v (Not (Id c)) s = (Inr (u \<noteq> v), s)) \<and>
   (\<forall>u. cells s c = Some u \<and> u \<noteq> v \<longrightarrow>
      matchPattern v (Or (Id c # post)) s = matchPattern v (Or post) s) \<and>
   fst (matchPattern (VTuple [VInt 3, VInt 3]) twice emptyState) = Inr True \<and>
   fst (matchPattern (VTuple [VInt 3, VInt 4]) twice emptyState) = Inr False \<and>
   fst (matchPattern (VTuple [VInt 4, VInt 4]) twice
          (resetId twice (snd (matchPattern (VTuple [VInt 3, VInt 4]) twice emptyState))))
     = Inr True"
proof -
  have ds: "matchPattern (VTuple (us @ v # vs)) (Ds (pre @ Id c # post)) s = (Inr False, t)"
    if "list_all (\<lambda>p. \<not> isOoo p) pre" and "length us = length pre"
      and "matchPattern (VTuple us) (Ds pre) s = (Inr True, t)"
      and "cells t c = Some u" and "u \<noteq> v" for u
    using Ds_append [OF that(1,2,3), of "v # vs" "Id c # post"] that(4,5)
    by (simp add: matchValue_def)
  have conj: "matchPattern v (And (pre @ Id c # post)) s = (Inr False, t)"
    if "matchPattern v (And pre) s = (Inr True, t)" and "cells t c = Some u" and "u \<noteq> v" for u
    using that by (simp add: foldUntil_append matchValue_def)
  have rest: "(cells s c = None \<longrightarrow>
      matchPattern v (Id c) s = (Inr True, s\<lparr>cells := (cells s)(c \<mapsto> v)\<rparr>)) \<and>
   (\<forall>u. cells s c = Some u \<longrightarrow> matchPattern v (Id c) s = (Inr (u = v), s)) \<and>
   (\<forall>u. cells s c = Some u \<longrightarrow> matchPattern v (Not (Id c)) s = (Inr (u \<noteq> v), s)) \<and>
   (\<forall>u. cells s c = Some u \<and> u \<noteq> v \<longrightarrow>
      matchPattern v (Or (Id c # post)) s = matchPattern v (Or post) s) \<and>
   fst (matchPattern (VTuple [VInt 3, VInt 3]) twice emptyState) = Inr True \<and>
   fst (matchPattern (VTuple [VInt 3, VInt 4]) twice emptyState) = Inr False \<and>
   fst (matchPattern (VTuple [VInt 4, VInt 4]) twice
          (resetId twice (snd (matchPattern (VTuple [VInt 3, VInt 4]) twice emptyState))))
     = Inr True"
    by (simp add: matchValue_def twice_def emptyState_def reset_def)
  show ?thesis using ds conj rest by blast
qed

theorem Id_commits_once_witness:
  "cells emptyState 5 = None \<and>
   matchPattern (VInt 3) (Id 5) emptyState
     = (Inr True, emptyState\<lparr>cells := (cells emptyState)(5 \<mapsto> VInt 3)\<rparr>) \<and>
   cells stale 0 = Some (VInt 3) \<and>
   matchPattern (VInt 4) (Id 0) stale = (Inr False, stale) \<and>
   matchPattern (VInt 3) (Id 0) stale = (Inr True, stale) \<and>
   list_all (\<lambda>p. \<not> isOoo p) [Lit 1, Id 0 :: unit pat] \<and>
   matchPattern (VTuple [VInt 1, VInt 3]) (Ds [Lit 1, Id 0]) emptyState = (Inr True, stale) \<and>
   matchPattern (VTuple ([VInt 1, VInt 3] @ VInt 4 # [VInt 2]))
     (Ds ([Lit 1, Id 0] @ Id 0 # [Lit 2])) emptyState = (Inr False, stale) \<and>
   matchPattern (VInt 3) (And [Id 0]) emptyState = (Inr True, stale) \<and>
   matchPattern (VInt 4) (And ([Wildcard] @ Id 0 # [Wildcard])) stale = (Inr False, stale) \<and>
   matchPattern (VInt 4) (Not (Id 0)) stale = (Inr True, stale) \<and>
   matchPattern (VInt 4) (Or (Id 0 # [Wildcard])) stale = (Inr True, stale)"
  using Id_commits_once [of emptyState 5 "VInt 3"]
    Id_commits_once [of stale 0 "VInt 4" "[Wildcard]" "[]" stale "[]" "[Wildcard]"]
    Id_commits_once [of stale 0 "VInt 3"]
    Id_commits_once [of emptyState 0 "VInt 4" "[Lit 1, Id 0]" "[VInt 1, VInt 3]" stale "[VInt 2]" "[Lit 2]"]
  by (simp add: stale_eq emptyState_def matchValue_def)


section \<open>Post-conditions\<close>

text \<open>
  C6. \<^verbatim>\<open>PostCheck\<close> matches the inner pattern first. When that fails the guard is not
  called: result and state are those of the inner pattern. When it succeeds the guard is
  called in the state the inner pattern left, and its result is the result. The cells are
  in both cases those the inner pattern left, also when the guard fails.
\<close>

theorem PostCheck_guard_after_pattern:
  "(fst (matchPattern v p s) = Inr False \<longrightarrow>
      matchPattern v (PostCheck p g) s = matchPattern v p s) \<and>
   (fst (matchPattern v p s) = Inr True \<longrightarrow>
      matchPattern v (PostCheck p g) s =
        (Inr (fst (g (snd (matchPattern v p s)))),
         (snd (matchPattern v p s))\<lparr>world := snd (g (snd (matchPattern v p s)))\<rparr>)) \<and>
   (fst (matchPattern v (PostCheck p g) s) = Inr True \<longleftrightarrow>
      fst (matchPattern v p s) = Inr True \<and> fst (g (snd (matchPattern v p s)))) \<and>
   cells (snd (matchPattern v (PostCheck p g) s)) = cells (snd (matchPattern v p s))"
proof -
  obtain b s' where m: "matchPattern v p s = (Inr b, s')"
    using matchPattern_returns by blast
  show ?thesis using m by (cases b) simp_all
qed

theorem PostCheck_guard_after_pattern_witness:
  "fst (matchPattern (VInt 2) (Lit 1) freshState) = Inr False \<and>
   matchPattern (VInt 2) (PostCheck (Lit 1) (capturedAbove 0 5)) freshState = (Inr False, freshState) \<and>
   fst (matchPattern (VInt 3) (Id 0) freshState) = Inr True \<and>
   fst (matchPattern (VInt 3) (PostCheck (Id 0) (capturedAbove 0 5)) freshState) = Inr False \<and>
   cells (snd (matchPattern (VInt 3) (PostCheck (Id 0) (capturedAbove 0 5)) freshState)) 0
     = Some (VInt 3) \<and>
   world (snd (matchPattern (VInt 3) (PostCheck (Id 0) (capturedAbove 0 5)) freshState)) = 1 \<and>
   fst (matchPattern (VInt 7) (PostCheck (Id 0) (capturedAbove 0 5)) freshState) = Inr True"
  using PostCheck_guard_after_pattern [of "VInt 2" "Lit 1" freshState "capturedAbove 0 5"]
    PostCheck_guard_after_pattern [of "VInt 3" "Id 0" freshState "capturedAbove 0 5"]
    PostCheck_guard_after_pattern [of "VInt 7" "Id 0" freshState "capturedAbove 0 5"]
  by (simp add: freshState_def capturedAbove_def matchValue_def)

section \<open>Negation\<close>

text \<open>
  \<^verbatim>\<open>not_(x)\<close> for an empty cell \<open>x\<close> fails against \<open>3\<close> and leaves \<open>x\<close> committed to \<open>3\<close>;
  for a cell committed to \<open>3\<close> it succeeds against \<open>4\<close> and leaves the cell committed.
\<close>

theorem Not_resets_captures_counterexample:
  "fst (matchPattern (VInt 3) (Not (Id 0)) emptyState) = Inr False \<and>
   cells (snd (matchPattern (VInt 3) (Not (Id 0)) emptyState)) 0 = Some (VInt 3) \<and>
   fst (matchPattern (VInt 4) (Not (Id 0)) stale) = Inr True \<and>
   cells (snd (matchPattern (VInt 4) (Not (Id 0)) stale)) 0 = Some (VInt 3)"
  by (simp add: emptyState_def stale_eq matchValue_def)

text \<open>
  C3, as the code has it. \<^verbatim>\<open>Not\<close> negates the result of its sub-pattern and leaves the
  state as the sub-pattern left it: the match resets no cell, and a cell the sub-pattern
  committed stays committed. \<^verbatim>\<open>not_(x)\<close> for an empty cell \<open>x\<close> fails and commits \<open>x\<close>. The
  cells under a \<^verbatim>\<open>Not\<close> are emptied by \<^verbatim>\<open>resetId\<close>.
\<close>

theorem Not_keeps_captures:
  "snd (matchPattern v (Not p) s) = snd (matchPattern v p s) \<and>
   (\<exists>b. fst (matchPattern v p s) = Inr b \<and> fst (matchPattern v (Not p) s) = Inr (\<not> b)) \<and>
   (cells s c = None \<longrightarrow>
      matchPattern v (Not (Id c)) s = (Inr False, s\<lparr>cells := (cells s)(c \<mapsto> v)\<rparr>)) \<and>
   (\<forall>x \<in> ids p. cells (resetId (Not p) (snd (matchPattern v (Not p) s))) x = None)"
proof -
  obtain b s' where m: "matchPattern v p s = (Inr b, s')"
    using matchPattern_returns by blast
  show ?thesis using m by (simp add: matchValue_def resetId_cells)
qed

theorem Not_keeps_captures_witness:
  "cells emptyState 0 = None \<and>
   matchPattern (VInt 3) (Not (Id 0)) emptyState
     = (Inr False, emptyState\<lparr>cells := (cells emptyState)(0 \<mapsto> VInt 3)\<rparr>) \<and>
   0 \<in> ids (Id 0 :: unit pat) \<and>
   cells (resetId (Not (Id 0)) (snd (matchPattern (VInt 3) (Not (Id 0)) emptyState))) 0 = None"
  using Not_keeps_captures [of "VInt 3" "Id 0" emptyState 0]
  by (simp add: emptyState_def matchValue_def reset_def)

section \<open>Alternatives\<close>

lemma Or_append:
  "matchPattern v (Or (xs @ ys)) s =
     (case matchPattern v (Or xs) s of
        (Inr b, s') \<Rightarrow> if b then (Inr True, s') else matchPattern v (Or ys) s'
      | (Inl e, s') \<Rightarrow> (Inl e, s'))"
  by (auto simp: foldUntil_append split: prod.splits sum.splits)

lemma Or_single: "matchPattern v (Or [p]) s = matchPattern v p s"
  by (auto split: prod.splits sum.splits)

lemma Or_take_fail:
  assumes "i \<le> length ps"
    and "\<forall>j<i. fst (matchPattern v (ps ! j) (snd (matchPattern v (Or (take j ps)) s))) = Inr False"
  shows "fst (matchPattern v (Or (take i ps)) s) = Inr False"
  using assms
proof (induction i)
  case 0
  then show ?case by simp
next
  case (Suc i)
  have i: "i < length ps" using Suc.prems(1) by simp
  have prev: "fst (matchPattern v (Or (take i ps)) s) = Inr False"
    using Suc.IH Suc.prems by simp
  obtain t where t: "matchPattern v (Or (take i ps)) s = (Inr False, t)"
    using prev by (cases "matchPattern v (Or (take i ps)) s") simp
  have here: "fst (matchPattern v (ps ! i) t) = Inr False"
    using Suc.prems(2) t by auto
  have "matchPattern v (Or (take (Suc i) ps)) s = matchPattern v (Or [ps ! i]) t"
    using t by (simp only: take_Suc_conv_app_nth [OF i] Or_append) simp
  then show ?case using here by (simp only: Or_single)
qed

lemma Or_first_success:
  assumes "i < length ps"
    and "\<forall>j<i. fst (matchPattern v (ps ! j) (snd (matchPattern v (Or (take j ps)) s))) = Inr False"
    and "fst (matchPattern v (ps ! i) (snd (matchPattern v (Or (take i ps)) s))) = Inr True"
  shows "matchPattern v (Or ps) s = matchPattern v (ps ! i) (snd (matchPattern v (Or (take i ps)) s))"
proof -
  have "fst (matchPattern v (Or (take i ps)) s) = Inr False"
    using Or_take_fail [of i ps v s] assms(1,2) by simp
  then obtain t where t: "matchPattern v (Or (take i ps)) s = (Inr False, t)"
    by (cases "matchPattern v (Or (take i ps)) s") simp
  obtain u where u: "matchPattern v (ps ! i) t = (Inr True, u)"
    using assms(3) t by (cases "matchPattern v (ps ! i) t") simp
  have split: "ps = take i ps @ ([ps ! i] @ drop (Suc i) ps)"
    using assms(1) by (simp add: Cons_nth_drop_Suc)
  have "matchPattern v (Or (take i ps @ ([ps ! i] @ drop (Suc i) ps))) s = (Inr True, u)"
    using t u by (simp only: Or_append Or_single) simp
  then show ?thesis using split t u by simp
qed

lemma Or_false_iff:
  "fst (matchPattern v (Or ps) s) = Inr False \<longleftrightarrow>
     (\<forall>j<length ps. fst (matchPattern v (ps ! j) (snd (matchPattern v (Or (take j ps)) s))) = Inr False)"
    (is "?L \<longleftrightarrow> ?R")
proof
  assume ?R
  then show ?L using Or_take_fail [of "length ps" ps v s] by simp
next
  assume L: ?L
  show ?R
  proof (rule ccontr)
    assume "\<not> ?R"
    then have ex: "\<exists>j. j < length ps \<and>
        fst (matchPattern v (ps ! j) (snd (matchPattern v (Or (take j ps)) s))) \<noteq> Inr False"
      by simp
    define i where "i = (LEAST j. j < length ps \<and>
        fst (matchPattern v (ps ! j) (snd (matchPattern v (Or (take j ps)) s))) \<noteq> Inr False)"
    have i: "i < length ps \<and>
        fst (matchPattern v (ps ! i) (snd (matchPattern v (Or (take i ps)) s))) \<noteq> Inr False"
      unfolding i_def using ex by (rule LeastI_ex)
    have least: "\<forall>j<i. fst (matchPattern v (ps ! j) (snd (matchPattern v (Or (take j ps)) s))) = Inr False"
    proof (intro allI impI)
      fix j assume "j < i"
      then have "\<not> (j < length ps \<and>
        fst (matchPattern v (ps ! j) (snd (matchPattern v (Or (take j ps)) s))) \<noteq> Inr False)"
        unfolding i_def by (rule not_less_Least)
      then show "fst (matchPattern v (ps ! j) (snd (matchPattern v (Or (take j ps)) s))) = Inr False"
        using \<open>j < i\<close> i by simp
    qed
    obtain b t where r: "matchPattern v (ps ! i) (snd (matchPattern v (Or (take i ps)) s)) = (Inr b, t)"
      using matchPattern_returns by blast
    then have "b" using i by (cases b) simp_all
    then have "matchPattern v (Or ps) s = (Inr True, t)"
      using Or_first_success [of i ps v s] i least r by simp
    then show False using L by simp
  qed
qed

text \<open>
  C7. \<^verbatim>\<open>Or\<close> tries its sub-patterns from left to right, each in the state the failed ones
  before it left. When the sub-patterns before the \<open>i\<close>-th fail and the \<open>i\<close>-th succeeds,
  result and state of the \<^verbatim>\<open>Or\<close> are those of the \<open>i\<close>-th sub-pattern: nothing after it is
  evaluated, and sub-patterns appended to an \<^verbatim>\<open>Or\<close> that succeeds change neither its result
  nor its state. The \<^verbatim>\<open>Or\<close> fails exactly when every sub-pattern fails in its turn.
\<close>

theorem Or_short_circuit:
  "(i < length ps \<and>
    (\<forall>j<i. fst (matchPattern v (ps ! j) (snd (matchPattern v (Or (take j ps)) s))) = Inr False) \<and>
    fst (matchPattern v (ps ! i) (snd (matchPattern v (Or (take i ps)) s))) = Inr True \<longrightarrow>
      matchPattern v (Or ps) s
        = matchPattern v (ps ! i) (snd (matchPattern v (Or (take i ps)) s))) \<and>
   (fst (matchPattern v (Or pre) s) = Inr True \<longrightarrow>
      matchPattern v (Or (pre @ post)) s = matchPattern v (Or pre) s) \<and>
   (fst (matchPattern v (Or ps) s) = Inr False \<longleftrightarrow>
      (\<forall>j<length ps.
         fst (matchPattern v (ps ! j) (snd (matchPattern v (Or (take j ps)) s))) = Inr False))"
proof (intro conjI)
  show "i < length ps \<and>
    (\<forall>j<i. fst (matchPattern v (ps ! j) (snd (matchPattern v (Or (take j ps)) s))) = Inr False) \<and>
    fst (matchPattern v (ps ! i) (snd (matchPattern v (Or (take i ps)) s))) = Inr True \<longrightarrow>
      matchPattern v (Or ps) s
        = matchPattern v (ps ! i) (snd (matchPattern v (Or (take i ps)) s))"
    using Or_first_success [of i ps v s] by blast
  show "fst (matchPattern v (Or pre) s) = Inr True \<longrightarrow>
      matchPattern v (Or (pre @ post)) s = matchPattern v (Or pre) s"
    by (cases "matchPattern v (Or pre) s") (simp only: Or_append, simp)
  show "fst (matchPattern v (Or ps) s) = Inr False \<longleftrightarrow>
      (\<forall>j<length ps.
         fst (matchPattern v (ps ! j) (snd (matchPattern v (Or (take j ps)) s))) = Inr False)"
    by (rule Or_false_iff)
qed

theorem Or_short_circuit_witness:
  "matchPattern (VInt 1) (Or [Wildcard, counted True]) freshState = (Inr True, freshState) \<and>
   matchPattern (VInt 1) (Or [Lit 2, counted True, counted True]) freshState
     = (Inr True, freshState\<lparr>world := 1\<rparr>) \<and>
   matchPattern (VInt 1) (Or [Lit 2, counted False, counted False]) freshState
     = (Inr False, freshState\<lparr>world := 2\<rparr>)"
  using Or_short_circuit [of 0 "[Wildcard, counted True]" "VInt 1" freshState "[Wildcard]" "[counted True]"]
    Or_short_circuit [of 1 "[Lit 2, counted True, counted True]" "VInt 1" freshState
      "[Lit 2, counted True]" "[counted True]"]
    Or_short_circuit [of 0 "[Lit 2, counted False, counted False]" "VInt 1" freshState "[]" "[]"]
  by (simp add: counted_def freshState_def)

section \<open>Sequences without a rest pattern\<close>

lemma tupleMatchImpl_longer:
  assumes "list_all (\<lambda>p. \<not> isOoo p) ps" and "length ps < length vs"
  shows "fst (tupleMatchImpl vs ps s) = Inr False \<and>
         snd (tupleMatchImpl vs ps s) = snd (tupleMatchImpl (take (length ps) vs) ps s)"
  using assms
proof (induction ps arbitrary: vs s)
  case Nil
  then show ?case by (cases vs) simp_all
next
  case (Cons p ps)
  obtain u us where vs: "vs = u # us" using Cons.prems(2) by (cases vs) auto
  obtain b s' where m: "matchPattern u p s = (Inr b, s')"
    using matchPattern_returns by blast
  have p: "\<not> isOoo p" and ps: "list_all (\<lambda>p. \<not> isOoo p) ps" and len: "length ps < length us"
    using Cons.prems vs by simp_all
  show ?case
  proof (cases b)
    case True
    then show ?thesis using Cons.IH [OF ps len, of s'] vs m p by simp
  next
    case False
    then show ?thesis using vs m p by simp
  qed
qed

lemma TupleMatchDefined_shorter:
  assumes "list_all (\<lambda>p. \<not> isOoo p) ps" and "length vs < length ps"
  shows "\<not> TupleMatchDefined vs ps"
  using assms
proof (induction ps arbitrary: vs)
  case Nil
  then show ?case by simp
next
  case (Cons p ps)
  then show ?case by (cases vs) auto
qed

text \<open>
  \<^verbatim>\<open>ds(x, y)\<close> against \<open>(1, 2, 3)\<close> fails, after it has committed \<open>x\<close> to \<open>1\<close> and \<open>y\<close> to \<open>2\<close>;
  against \<open>(1)\<close> it has no rule.
\<close>

theorem Ds_arity_mismatch_counterexample:
  "fst (matchPattern (VTuple [VInt 1, VInt 2, VInt 3]) (Ds [Id 0, Id 1]) emptyState) = Inr False \<and>
   cells (snd (matchPattern (VTuple [VInt 1, VInt 2, VInt 3]) (Ds [Id 0, Id 1]) emptyState)) 0
     = Some (VInt 1) \<and>
   cells (snd (matchPattern (VTuple [VInt 1, VInt 2, VInt 3]) (Ds [Id 0, Id 1]) emptyState)) 1
     = Some (VInt 2) \<and>
   \<not> MatchFuncDefined (VTuple [VInt 1]) (Ds [Id 0, Id 1 :: unit pat])"
  by (simp add: emptyState_def matchValue_def)

text \<open>
  C8, as the code has it. For a \<^verbatim>\<open>Ds\<close> of \<open>N\<close> patterns, none of them an \<^verbatim>\<open>Ooo\<close>: against
  more than \<open>N\<close> values the match fails, after matching the first \<open>N\<close> values against the
  patterns in order up to the first failure, and it leaves the state that the match of
  those \<open>N\<close> values leaves; against fewer than \<open>N\<close> values there is no rule, and the
  compiler rejects the call.
\<close>

theorem Ds_arity_mismatch:
  "list_all (\<lambda>p. \<not> isOoo p) ps \<Longrightarrow>
   (length ps < length vs \<longrightarrow>
      fst (matchPattern (VTuple vs) (Ds ps) s) = Inr False \<and>
      snd (matchPattern (VTuple vs) (Ds ps) s)
        = snd (matchPattern (VTuple (take (length ps) vs)) (Ds ps) s)) \<and>
   (length vs < length ps \<longrightarrow> \<not> MatchFuncDefined (VTuple vs) (Ds ps))"
  using tupleMatchImpl_longer [of ps vs s] TupleMatchDefined_shorter [of ps vs] by simp

theorem Ds_arity_mismatch_witness:
  "list_all (\<lambda>p. \<not> isOoo p) [Id 0, Lit 7 :: unit pat] \<and>
   length [Id 0, Lit 7 :: unit pat] < length [VInt 1, VInt 7, VInt 3] \<and>
   matchPattern (VTuple [VInt 1, VInt 7, VInt 3]) (Ds [Id 0, Lit 7]) emptyState
     = (Inr False, emptyState\<lparr>cells := (cells emptyState)(0 \<mapsto> VInt 1)\<rparr>) \<and>
   matchPattern (VTuple [VInt 1, VInt 7]) (Ds [Id 0, Lit 7]) emptyState
     = (Inr True, emptyState\<lparr>cells := (cells emptyState)(0 \<mapsto> VInt 1)\<rparr>) \<and>
   length [VInt 1] < length [Id 0, Lit 7 :: unit pat] \<and>
   \<not> MatchFuncDefined (VTuple [VInt 1]) (Ds [Id 0, Lit 7 :: unit pat])"
  using Ds_arity_mismatch [of "[Id 0, Lit 7]" "[VInt 1, VInt 7, VInt 3]" emptyState]
    Ds_arity_mismatch [of "[Id 0, Lit 7 :: unit pat]" "[VInt 1]" emptyState]
  by (simp add: emptyState_def matchValue_def)

section \<open>Sequences with a rest pattern\<close>





































end
